theory Spec2Isabelle
  imports Main "HOL-Library.Sublist"
begin

section \<open>Strings\<close>

text \<open>
  A JavaScript string is represented by the bytes of its UTF-8 encoding, as an Isabelle
  \<open>string\<close>. Every character the script compares against (line feed, carriage return,
  comma, double quote, the letters of \<open>id,description\<close>, the digits) is ASCII, hence one
  byte, and no byte of a multi-byte sequence equals an ASCII byte, so the scans below see
  the same characters as the script does on its UTF-16 code units.
\<close>

abbreviation LF :: char where "LF \<equiv> CHR 0x0A"
abbreviation CR :: char where "CR \<equiv> CHR 0x0D"
abbreviation dquote :: char where "dquote \<equiv> CHR 0x22"
abbreviation comma :: char where "comma \<equiv> CHR 0x2C"

text \<open>
  The characters removed by \<open>String.prototype.trim\<close>: ECMAScript's WhiteSpace and
  LineTerminator productions (TAB, LF, VT, FF, CR, SP, U+00A0, U+1680, U+2000 to U+200A,
  U+2028, U+2029, U+202F, U+205F, U+3000, U+FEFF), each as its UTF-8 byte sequence.
\<close>

definition whiteSpace :: "string list" where
  "whiteSpace =
     [[CHR 0x09], [CHR 0x0A], [CHR 0x0B], [CHR 0x0C], [CHR 0x0D], [CHR 0x20],
      [CHR 0xC2, CHR 0xA0],
      [CHR 0xE1, CHR 0x9A, CHR 0x80],
      [CHR 0xE2, CHR 0x80, CHR 0x80], [CHR 0xE2, CHR 0x80, CHR 0x81],
      [CHR 0xE2, CHR 0x80, CHR 0x82], [CHR 0xE2, CHR 0x80, CHR 0x83],
      [CHR 0xE2, CHR 0x80, CHR 0x84], [CHR 0xE2, CHR 0x80, CHR 0x85],
      [CHR 0xE2, CHR 0x80, CHR 0x86], [CHR 0xE2, CHR 0x80, CHR 0x87],
      [CHR 0xE2, CHR 0x80, CHR 0x88], [CHR 0xE2, CHR 0x80, CHR 0x89],
      [CHR 0xE2, CHR 0x80, CHR 0x8A],
      [CHR 0xE2, CHR 0x80, CHR 0xA8], [CHR 0xE2, CHR 0x80, CHR 0xA9],
      [CHR 0xE2, CHR 0x80, CHR 0xAF],
      [CHR 0xE2, CHR 0x81, CHR 0x9F],
      [CHR 0xE3, CHR 0x80, CHR 0x80],
      [CHR 0xEF, CHR 0xBB, CHR 0xBF]]"

text \<open>\<open>strip seqs s\<close> removes from the front of \<open>s\<close> every leading occurrence of one of \<open>seqs\<close>.\<close>

function strip :: "string list \<Rightarrow> string \<Rightarrow> string" where
  "strip seqs s =
     (case find (\<lambda>p. p \<noteq> [] \<and> prefix p s) seqs of
        None \<Rightarrow> s
      | Some p \<Rightarrow> strip seqs (drop (length p) s))"
  by pat_completeness auto
termination
  by (relation "measure (\<lambda>(seqs, s). length s)") (auto simp: find_Some_iff prefix_def)

declare strip.simps [simp del]

definition trimStart :: "string \<Rightarrow> string" where
  "trimStart s = strip whiteSpace s"

definition trimEnd :: "string \<Rightarrow> string" where
  "trimEnd s = rev (strip (map rev whiteSpace) (rev s))"

definition trim :: "string \<Rightarrow> string" where
  "trim s = trimEnd (trimStart s)"

text \<open>
  \<open>toLowerCase\<close> on the ASCII letters. The script only compares the lowered line with the
  ASCII texts \<open>id\<close>, \<open>id,description\<close> and the prefix \<open>id,\<close>; no character outside ASCII
  lowers to one of their letters alone, so bytes above 0x7F are left as they are.
\<close>

definition toLowerCase_char :: "char \<Rightarrow> char" where
  "toLowerCase_char c =
     (let n = (of_char c :: nat) in if 65 \<le> n \<and> n \<le> 90 then char_of (n + 32) else c)"

definition toLowerCase :: "string \<Rightarrow> string" where
  "toLowerCase s = map toLowerCase_char s"

text \<open>\<open>raw.split(/\r?\n/)\<close>: a separator is a line feed, with the carriage return before it if
  there is one. A carriage return not followed by a line feed is ordinary text. The result
  is never empty, so the last case below does not arise.\<close>

fun split_newlines :: "string \<Rightarrow> string list" where
  "split_newlines [] = [[]]"
| "split_newlines (c # cs) =
     (if c = LF then [] # split_newlines cs
      else if c = CR \<and> cs \<noteq> [] \<and> hd cs = LF then [] # split_newlines (tl cs)
      else (case split_newlines cs of l # ls \<Rightarrow> (c # l) # ls | [] \<Rightarrow> [[c]]))"

section \<open>CSV parsing\<close>

text \<open>The loop of \<open>splitCSVLine\<close> over the characters from index \<open>i\<close> on; \<open>line[i + 1]\<close> past
  the end is \<open>undefined\<close>, which is not a quote.\<close>

fun splitCSVLine_loop :: "string \<Rightarrow> string list \<Rightarrow> string \<Rightarrow> bool \<Rightarrow> string list" where
  "splitCSVLine_loop [] fields current inQuotes = fields @ [current]"
| "splitCSVLine_loop (ch # rest) fields current inQuotes =
     (if ch = dquote then
        (if inQuotes \<and> rest \<noteq> [] \<and> hd rest = dquote
         then splitCSVLine_loop (tl rest) fields (current @ [dquote]) inQuotes
         else splitCSVLine_loop rest fields current (\<not> inQuotes))
      else if ch = comma \<and> \<not> inQuotes
        then splitCSVLine_loop rest (fields @ [current]) [] inQuotes
      else splitCSVLine_loop rest fields (current @ [ch]) inQuotes)"

definition splitCSVLine :: "string \<Rightarrow> string list" where
  "splitCSVLine line = splitCSVLine_loop line [] [] False"

record item =
  item_id :: string
  description :: string

definition parseLine :: "string \<Rightarrow> item option" where
  "parseLine line =
     (let fields = splitCSVLine line;
          ident = trim (hd fields)
      in if ident = [] then None
         else Some \<lparr>item_id = ident,
                    description = (if length fields > 1 then trim (fields ! 1) else [])\<rparr>)"

text \<open>The first statement of \<open>parseInput\<close>: split, trim each line, keep the non-empty ones.\<close>

definition inputLines :: "string \<Rightarrow> string list" where
  "inputLines raw = filter (\<lambda>l. l \<noteq> []) (map trim (split_newlines raw))"

definition hasHeader :: "string \<Rightarrow> bool" where
  "hasHeader line =
     (let firstLine = toLowerCase line
      in firstLine = ''id'' \<or> firstLine = ''id,description'' \<or> prefix ''id,'' firstLine)"

definition parseInput :: "string \<Rightarrow> item list" where
  "parseInput raw =
     (let lines = inputLines raw in
      if length lines = 0 then []
      else let dataLines = (if hasHeader (hd lines) then drop 1 lines else lines)
           in map the (filter (\<lambda>entry. entry \<noteq> None) (map parseLine dataLines)))"


section \<open>Page context\<close>

text \<open>
  What the script obtains from its surroundings: the path of the page, the answer of the
  network to each request (looked up at the moment of the call), the moments at which the
  user clicks Cancel, and the text of the engine's TypeError for a property read on
  \<open>null\<close> or \<open>undefined\<close>. Moments are counted in suspensions: the \<open>clock\<close> of the
  world below advances each time the script waits.
\<close>

datatype request =
    AddConstToList string string
  | EditListItemDescription string string string

record listItem_node =
  titleText :: "string option"
  nameText :: "string option"

record modified_item =
  itemId :: "string option"
  listItem :: "listItem_node option"

record addItemToList_payload =
  modifiedItem :: "modified_item option"

record graphql_data =
  data_addItemToList :: "addItemToList_payload option"

record graphql_json =
  errors :: "string list"
  data :: "graphql_data option"

datatype body = Unparsable string | Parsed graphql_json

record response =
  res_ok :: bool
  res_status :: nat
  statusText :: string
  res_body :: body

datatype fetch_result = Rejected string | Resolved response

record env =
  pathname :: string
  network :: "nat \<Rightarrow> request \<Rightarrow> fetch_result"
  cancelClick :: "nat \<Rightarrow> bool"
  typeErrorMessage :: "string \<Rightarrow> string"

definition isDigit :: "char \<Rightarrow> bool" where
  "isDigit c \<longleftrightarrow> 48 \<le> (of_char c :: nat) \<and> (of_char c :: nat) \<le> 57"

text \<open>\<open>pathname.match(/(ls\d+)/)\<close>: the leftmost \<open>ls\<close> followed by at least one digit, with all
  the digits that follow.\<close>

fun match_ls_digits :: "string \<Rightarrow> string option" where
  "match_ls_digits [] = None"
| "match_ls_digits (c # cs) =
     (if c = CHR ''l'' \<and> cs \<noteq> [] \<and> hd cs = CHR ''s'' \<and> takeWhile isDigit (tl cs) \<noteq> []
      then Some (''ls'' @ takeWhile isDigit (tl cs))
      else match_ls_digits cs)"

definition getListId :: "env \<Rightarrow> string option" where
  "getListId env = match_ls_digits (pathname env)"

section \<open>GraphQL API calls\<close>

record status =
  status_id :: string
  index :: nat
  ok :: bool
  error :: "string option"
  title :: string

text \<open>
  The world the script acts on: the clock, the \<open>aborted\<close> variable of the user interface, and
  the effects in the order they happen: the requests sent, the calls of \<open>onProgress\<close> with
  their three arguments, and the delays slept.
\<close>

record world =
  clock :: nat
  aborted :: bool
  requests :: "request list"
  progress :: "(nat \<times> nat \<times> status) list"
  sleeps :: "nat list"

text \<open>One suspension (\<open>await\<close> of network traffic or of a timer). The Cancel handler may run
  meanwhile; all it does is \<open>aborted = true\<close>.\<close>

definition suspend :: "env \<Rightarrow> world \<Rightarrow> world" where
  "suspend env w = w\<lparr>clock := Suc (clock w), aborted := (aborted w \<or> cancelClick env (clock w))\<rparr>"

definition fetch :: "env \<Rightarrow> request \<Rightarrow> world \<Rightarrow> fetch_result \<times> world" where
  "fetch env req w = (network env (clock w) req, suspend env (w\<lparr>requests := requests w @ [req]\<rparr>))"

text \<open>\<open>Array.prototype.join\<close>.\<close>

fun join :: "string \<Rightarrow> string list \<Rightarrow> string" where
  "join sep [] = []"
| "join sep [x] = x"
| "join sep (x # y # ys) = x @ sep @ join sep (y # ys)"

fun decimal :: "nat \<Rightarrow> string" where
  "decimal n = (if n < 10 then [char_of (48 + n)] else decimal (n div 10) @ [char_of (48 + n mod 10)])"

declare decimal.simps [simp del]

text \<open>The message \<open>HTTP ${res.status} - ${res.statusText}\<close>; the dash is U+2013.\<close>

definition httpError :: "response \<Rightarrow> string" where
  "httpError res =
     ''HTTP '' @ decimal (res_status res) @ '' '' @ [CHR 0xE2, CHR 0x80, CHR 0x93] @ '' '' @ statusText res"

text \<open>Both calls return \<open>Inl\<close> of the message of the error they throw, or \<open>Inr\<close> of their value.\<close>

definition addItemToList ::
  "env \<Rightarrow> string \<Rightarrow> string \<Rightarrow> world \<Rightarrow> (string + modified_item option) \<times> world" where
  "addItemToList env listId constId w =
     (let (r, w1) = fetch env (AddConstToList listId constId) w in
      case r of
        Rejected msg \<Rightarrow> (Inl msg, w1)
      | Resolved res \<Rightarrow>
          if \<not> res_ok res then (Inl (httpError res), w1)
          else let w2 = suspend env w1 in
            (case res_body res of
               Unparsable msg \<Rightarrow> (Inl msg, w2)
             | Parsed json \<Rightarrow>
                 if errors json \<noteq> [] then (Inl (join ''; '' (errors json)), w2)
                 else (case data json of
                         None \<Rightarrow> (Inl (typeErrorMessage env ''addItemToList''), w2)
                       | Some d \<Rightarrow>
                           (case data_addItemToList d of
                              None \<Rightarrow> (Inl (typeErrorMessage env ''modifiedItem''), w2)
                            | Some a \<Rightarrow> (Inr (modifiedItem a), w2)))))"

definition updateDescription ::
  "env \<Rightarrow> string \<Rightarrow> string \<Rightarrow> string \<Rightarrow> world \<Rightarrow> (string + unit) \<times> world" where
  "updateDescription env listId itemId' description' w =
     (let (r, w1) = fetch env (EditListItemDescription listId itemId' description') w in
      case r of
        Rejected msg \<Rightarrow> (Inl msg, w1)
      | Resolved res \<Rightarrow>
          if \<not> res_ok res then (Inl (httpError res), w1)
          else let w2 = suspend env w1 in
            (case res_body res of
               Unparsable msg \<Rightarrow> (Inl msg, w2)
             | Parsed json \<Rightarrow>
                 if errors json \<noteq> [] then (Inl (join ''; '' (errors json)), w2)
                 else (case data json of
                         None \<Rightarrow> (Inl (typeErrorMessage env ''editListItemDescription''), w2)
                       | Some d \<Rightarrow> (Inr (), w2))))"

section \<open>Bulk upload orchestrator\<close>

record opts =
  useDelay :: bool
  delayMs :: nat

text \<open>The two callbacks the user interface passes in: \<open>getAborted\<close> reads the variable, and
  \<open>onProgress\<close> only redraws the page; its call is recorded.\<close>

definition getAborted :: "world \<Rightarrow> bool" where
  "getAborted w = aborted w"

definition onProgress :: "nat \<Rightarrow> nat \<Rightarrow> status \<Rightarrow> world \<Rightarrow> world" where
  "onProgress done count st w = w\<lparr>progress := progress w @ [(done, count, st)]\<rparr>"

definition sleep :: "env \<Rightarrow> nat \<Rightarrow> world \<Rightarrow> world" where
  "sleep env ms w = suspend env (w\<lparr>sleeps := sleeps w @ [ms]\<rparr>)"

text \<open>A value is truthy here when it is a non-empty string.\<close>

definition truthy :: "string option \<Rightarrow> bool" where
  "truthy v = (case v of None \<Rightarrow> False | Some s \<Rightarrow> s \<noteq> [])"

text \<open>The \<open>try\<close> block with its \<open>catch\<close>.\<close>

definition tryItem :: "env \<Rightarrow> string \<Rightarrow> item \<Rightarrow> status \<Rightarrow> world \<Rightarrow> status \<times> world" where
  "tryItem env listId item st w =
     (let (r, w1) = addItemToList env listId (item_id item) w in
      case r of
        Inl message \<Rightarrow> (st\<lparr>error := Some message\<rparr>, w1)
      | Inr added \<Rightarrow>
          let titleNode = Option.bind added listItem;
              t1 = Option.bind titleNode titleText;
              t2 = Option.bind titleNode nameText;
              st1 = st\<lparr>title := (if truthy t1 then the t1 else if truthy t2 then the t2
                                   else item_id item)\<rparr>;
              itemId' = Option.bind added itemId
          in if description item \<noteq> [] \<and> truthy itemId' then
               (let (u, w2) = updateDescription env listId (the itemId') (description item) w1 in
                case u of
                  Inl message \<Rightarrow> (st1\<lparr>error := Some message\<rparr>, w2)
                | Inr _ \<Rightarrow> (st1\<lparr>ok := True\<rparr>, w2))
             else (st1\<lparr>ok := True\<rparr>, w1))"

text \<open>One pass through the body of the \<open>for\<close> loop, after the check of \<open>getAborted\<close> at its
  top. Inside the loop \<open>items.length\<close> is at least 1.\<close>

definition processItems_body ::
  "env \<Rightarrow> opts \<Rightarrow> string \<Rightarrow> item list \<Rightarrow> nat \<Rightarrow> status list \<Rightarrow> world \<Rightarrow> status list \<times> world" where
  "processItems_body env opts listId items i results w =
     (let item = items ! i;
          st0 = \<lparr>status_id = item_id item, index = i, ok = False, error = None, title = []\<rparr>;
          (st, w1) = tryItem env listId item st0 w;
          w2 = onProgress (i + 1) (length items) st w1;
          w3 = (if useDelay opts \<and> i < length items - 1 \<and> \<not> getAborted w2
                then sleep env (delayMs opts) w2 else w2)
      in (results @ [st], w3))"

function processItems_loop ::
  "env \<Rightarrow> opts \<Rightarrow> string \<Rightarrow> item list \<Rightarrow> nat \<Rightarrow> status list \<Rightarrow> world \<Rightarrow> status list \<times> world" where
  "processItems_loop env opts listId items i results w =
     (if i < length items then
        if getAborted w then (results, w)
        else let (results', w') = processItems_body env opts listId items i results w
             in processItems_loop env opts listId items (i + 1) results' w'
      else (results, w))"
  by pat_completeness auto
termination
  by (relation "measure (\<lambda>(env, opts, listId, items, i, results, w). length items - i)") auto

declare processItems_loop.simps [simp del]

definition processItems :: "env \<Rightarrow> opts \<Rightarrow> item list \<Rightarrow> world \<Rightarrow> (string + status list) \<times> world" where
  "processItems env opts items w =
     (case getListId env of
        None \<Rightarrow> (Inl ''Could not determine list ID from URL.'', w)
      | Some listId \<Rightarrow>
          let (results, w') = processItems_loop env opts listId items 0 [] w
          in (Inr results, w'))"

section \<open>Notions used to state the properties\<close>

text \<open>The pass that the loop makes for item \<open>i\<close> starts from this record.\<close>

definition initialStatus :: "item list \<Rightarrow> nat \<Rightarrow> status" where
  "initialStatus items i =
     \<lparr>status_id = item_id (items ! i), index = i, ok = False, error = None, title = []\<rparr>"

text \<open>\<open>run_items \<dots> k w\<close> is the list of results and the world after the loop body has run for
  the items \<open>0, \<dots>, k - 1\<close>, starting in world \<open>w\<close>: the state in which the loop checks
  \<open>getAborted\<close> before item \<open>k\<close>.\<close>

fun run_items :: "env \<Rightarrow> opts \<Rightarrow> string \<Rightarrow> item list \<Rightarrow> nat \<Rightarrow> world \<Rightarrow> status list \<times> world" where
  "run_items env opts listId items 0 w = ([], w)"
| "run_items env opts listId items (Suc k) w =
     (let (results, w') = run_items env opts listId items k w
      in processItems_body env opts listId items k results w')"

declare run_items.simps(2) [simp del]

text \<open>The message of the remote failure met when the item is processed in world \<open>w\<close>, if one of
  its remote calls fails: the add call, or else the description call when it is made.\<close>

definition itemFailure :: "env \<Rightarrow> string \<Rightarrow> item \<Rightarrow> world \<Rightarrow> string option" where
  "itemFailure env listId item w =
     (let (r, w1) = addItemToList env listId (item_id item) w in
      case r of
        Inl message \<Rightarrow> Some message
      | Inr added \<Rightarrow>
          if description item \<noteq> [] \<and> truthy (Option.bind added itemId) then
            (case fst (updateDescription env listId (the (Option.bind added itemId))
                         (description item) w1) of
               Inl message \<Rightarrow> Some message
             | Inr _ \<Rightarrow> None)
          else None)"

text \<open>Writing a field the way a CSV writer does: in double quotes, each quote doubled, when
  the field holds a comma or a quote.\<close>

definition escapeQuotes :: "string \<Rightarrow> string" where
  "escapeQuotes f = concat (map (\<lambda>c. if c = dquote then [dquote, dquote] else [c]) f)"

definition csv_escape :: "string \<Rightarrow> string" where
  "csv_escape f =
     (if comma \<in> set f \<or> dquote \<in> set f then [dquote] @ escapeQuotes f @ [dquote] else f)"

text \<open>A text made of a first line and further lines, each preceded by its separator.\<close>

fun joinLines :: "string \<Rightarrow> (string \<times> string) list \<Rightarrow> string" where
  "joinLines l [] = l"
| "joinLines l ((sep, l') # others) = l @ sep @ joinLines l' others"

text \<open>The lines hold no line feed, each separator is a line feed or a carriage return and a
  line feed, and a line before a bare line feed does not end in a carriage return (the two
  would read as the pair). Every text is written in exactly this way.\<close>

fun wellSeparated :: "string \<Rightarrow> (string \<times> string) list \<Rightarrow> bool" where
  "wellSeparated l [] = (LF \<notin> set l)"
| "wellSeparated l ((sep, l') # others) =
     (LF \<notin> set l
      \<and> (sep = [CR, LF] \<or> (sep = [LF] \<and> (l = [] \<or> last l \<noteq> CR)))
      \<and> wellSeparated l' others)"

text \<open>Comparison of texts without regard to the case of the letters A to Z, and the header
  test in the words of the specification.\<close>

definition isUpper :: "char \<Rightarrow> bool" where
  "isUpper c \<longleftrightarrow> 65 \<le> (of_char c :: nat) \<and> (of_char c :: nat) \<le> 90"

definition sameLetter :: "char \<Rightarrow> char \<Rightarrow> bool" where
  "sameLetter x y \<longleftrightarrow> x = y
     \<or> (isUpper x \<and> (of_char y :: nat) = of_char x + 32)
     \<or> (isUpper y \<and> (of_char x :: nat) = of_char y + 32)"

definition equalsIgnoreCase :: "string \<Rightarrow> string \<Rightarrow> bool" where
  "equalsIgnoreCase s t \<longleftrightarrow> list_all2 sameLetter s t"

definition startsWithIgnoreCase :: "string \<Rightarrow> string \<Rightarrow> bool" where
  "startsWithIgnoreCase s p \<longleftrightarrow> length p \<le> length s \<and> equalsIgnoreCase (take (length p) s) p"

definition header_spec :: "string \<Rightarrow> bool" where
  "header_spec line \<longleftrightarrow>
     equalsIgnoreCase line ''id'' \<or> equalsIgnoreCase line ''id,description''
     \<or> startsWithIgnoreCase line ''id,''"

text \<open>The work items that a list of data lines yields.\<close>

definition itemsOf :: "string list \<Rightarrow> item list" where
  "itemsOf dataLines = map the (filter (\<lambda>entry. entry \<noteq> None) (map parseLine dataLines))"

text \<open>The first field of a line as \<open>parseLine\<close> reads it, what \<open>parseInput\<close> does with the
  surviving lines, and the data lines it keeps.\<close>

definition firstField :: "string \<Rightarrow> string" where
  "firstField line = trim (hd (splitCSVLine line))"

definition parseLines :: "string list \<Rightarrow> item list" where
  "parseLines ls =
     (case ls of
        [] \<Rightarrow> []
      | first # rest \<Rightarrow> if hasHeader first then itemsOf rest else itemsOf (first # rest))"

definition dataLines :: "string \<Rightarrow> string list" where
  "dataLines raw =
     (case inputLines raw of
        [] \<Rightarrow> []
      | first # rest \<Rightarrow> if hasHeader first then rest else first # rest)"

subsection \<open>A sample page\<close>

text \<open>A list page whose service rejects the title \<open>tt0\<close> with status 500 and the description
  \<open>x\<close> with an API error, and accepts everything else.\<close>

definition sample_added :: modified_item where
  "sample_added =
     \<lparr>itemId = Some ''li1'', listItem = Some \<lparr>titleText = Some ''Heat'', nameText = None\<rparr>\<rparr>"

definition sample_network :: "nat \<Rightarrow> request \<Rightarrow> fetch_result" where
  "sample_network t req =
     (case req of
        AddConstToList l c \<Rightarrow>
          if c = ''tt0''
          then Resolved \<lparr>res_ok = False, res_status = 500, statusText = ''Internal Server Error'',
                         res_body = Unparsable []\<rparr>
          else Resolved \<lparr>res_ok = True, res_status = 200, statusText = ''OK'',
                         res_body = Parsed \<lparr>errors = [],
                           data = Some \<lparr>data_addItemToList = Some \<lparr>modifiedItem = Some sample_added\<rparr>\<rparr>\<rparr>\<rparr>
      | EditListItemDescription l i d \<Rightarrow>
          if d = ''x''
          then Resolved \<lparr>res_ok = True, res_status = 200, statusText = ''OK'',
                         res_body = Parsed \<lparr>errors = [''Forbidden''], data = None\<rparr>\<rparr>
          else Resolved \<lparr>res_ok = True, res_status = 200, statusText = ''OK'',
                         res_body = Parsed \<lparr>errors = [],
                           data = Some \<lparr>data_addItemToList = None\<rparr>\<rparr>\<rparr>)"

definition sample_env :: env where
  "sample_env =
     \<lparr>pathname = ''/list/ls123/edit'', network = sample_network, cancelClick = (\<lambda>t. False),
      typeErrorMessage = (\<lambda>p. ''Cannot read properties of undefined'')\<rparr>"

definition sample_opts :: opts where
  "sample_opts = \<lparr>useDelay = True, delayMs = 5000\<rparr>"

text \<open>The world in which the user interface calls \<open>processItems\<close>: it has just set
  \<open>aborted = false\<close>.\<close>

definition initialWorld :: world where
  "initialWorld = \<lparr>clock = 0, aborted = False, requests = [], progress = [], sleeps = []\<rparr>"

text \<open>The same page with a click on Cancel during the second suspension.\<close>

definition cancel_env :: env where
  "cancel_env = sample_env\<lparr>cancelClick := (\<lambda>t. t = 1)\<rparr>"

definition http500 :: string where
  "http500 = ''HTTP 500 '' @ [CHR 0xE2, CHR 0x80, CHR 0x93] @ '' Internal Server Error''"

definition annotated_item :: item where
  "annotated_item = \<lparr>item_id = ''tt1'', description = ''x''\<rparr>"

text \<open>A batch of two items and the outcomes the sample page gives it.\<close>

definition two_items :: "item list" where
  "two_items = [\<lparr>item_id = ''tt0'', description = []\<rparr>, \<lparr>item_id = ''tt2'', description = ''fine''\<rparr>]"

definition two_outcomes :: "status list" where
  "two_outcomes =
     [\<lparr>status_id = ''tt0'', index = 0, ok = False, error = Some http500, title = []\<rparr>,
      \<lparr>status_id = ''tt2'', index = 1, ok = True, error = None, title = ''Heat''\<rparr>]"

text \<open>Sample inputs of the parser.\<close>

definition two_rows :: string where
  "two_rows = '' ,dropped'' @ [LF] @ ''tt9''"

definition with_header :: string where
  "with_header = ''ID,Description'' @ [LF] @ ''tt1,'' @ [dquote] @ ''d'' @ [dquote]"

definition without_header :: string where
  "without_header = ''tt1,'' @ [dquote] @ ''d'' @ [dquote]"

definition mixed_text :: string where
  "mixed_text = ''a'' @ [CR] @ ''b'' @ [LF] @ ''  c'' @ [CR] @ [CR, LF] @ ''   '' @ [LF] @ ''d''"

section \<open>Properties of the parser\<close>

lemma splitCSVLine_loop_nonempty: "splitCSVLine_loop l fs cur q \<noteq> []"
  by (induction l fs cur q rule: splitCSVLine_loop.induct) auto

lemma loop_plain:
  "comma \<notin> set f \<Longrightarrow> dquote \<notin> set f \<Longrightarrow>
   splitCSVLine_loop (f @ rest) fs cur False = splitCSVLine_loop rest fs (cur @ f) False"
  by (induction f arbitrary: cur) auto

lemma loop_quoted_body:
  "rest = [] \<or> hd rest \<noteq> dquote \<Longrightarrow>
   splitCSVLine_loop (escapeQuotes f @ dquote # rest) fs cur True
     = splitCSVLine_loop rest fs (cur @ f) False"
  by (induction f arbitrary: cur) (auto simp: escapeQuotes_def)

lemma loop_csv_escape:
  "rest = [] \<or> hd rest \<noteq> dquote \<Longrightarrow>
   splitCSVLine_loop (csv_escape f @ rest) fs cur False
     = splitCSVLine_loop rest fs (cur @ f) False"
  by (auto simp: csv_escape_def loop_plain loop_quoted_body)

lemma loop_join:
  "splitCSVLine_loop (join [comma] (map csv_escape (f # fs))) acc [] False = acc @ f # fs"
proof (induction fs arbitrary: f acc)
  case Nil
  have "splitCSVLine_loop (csv_escape f @ []) acc [] False = splitCSVLine_loop [] acc ([] @ f) False"
    by (rule loop_csv_escape) simp
  then show ?case by simp
next
  case (Cons g fs)
  have "splitCSVLine_loop (csv_escape f @ comma # join [comma] (map csv_escape (g # fs))) acc [] False
        = splitCSVLine_loop (comma # join [comma] (map csv_escape (g # fs))) acc ([] @ f) False"
    by (rule loop_csv_escape) simp
  then show ?case using Cons.IH [of g "acc @ [f]"] by simp
qed

lemma split_newlines_nonempty: "split_newlines s \<noteq> []"
  by (induction s rule: split_newlines.induct) (auto split: list.splits)

lemma split_no_LF: "LF \<notin> set s \<Longrightarrow> split_newlines s = [s]"
  by (induction s rule: split_newlines.induct) (auto simp: neq_Nil_conv split: list.splits)

lemma split_before_CRLF:
  "LF \<notin> set l \<Longrightarrow> split_newlines (l @ CR # LF # rest) = l # split_newlines rest"
proof (induction l)
  case Nil
  show ?case by simp
next
  case (Cons c l)
  from Cons.prems have c: "c \<noteq> LF" and l: "LF \<notin> set l" by auto
  from l have h: "hd (l @ CR # LF # rest) \<noteq> LF" by (cases l) auto
  from Cons.IH l have "split_newlines (l @ CR # LF # rest) = l # split_newlines rest" by blast
  with c h show ?case by simp
qed

lemma split_before_LF:
  "LF \<notin> set l \<Longrightarrow> l = [] \<or> last l \<noteq> CR \<Longrightarrow>
   split_newlines (l @ LF # rest) = l # split_newlines rest"
proof (induction l)
  case Nil
  show ?case by simp
next
  case (Cons c l)
  from Cons.prems(1) have c: "c \<noteq> LF" and l: "LF \<notin> set l" by auto
  show ?case
  proof (cases l)
    case Nil
    with Cons.prems(2) have "c \<noteq> CR" by simp
    with c Nil show ?thesis by simp
  next
    case (Cons d l')
    with l have h: "hd (l @ LF # rest) \<noteq> LF" by auto
    from Cons Cons.prems(2) have "l = [] \<or> last l \<noteq> CR" by simp
    with Cons.IH l have "split_newlines (l @ LF # rest) = l # split_newlines rest" by blast
    with c h show ?thesis by simp
  qed
qed

lemma split_wellSeparated:
  "wellSeparated l others \<Longrightarrow> split_newlines (joinLines l others) = l # map snd others"
proof (induction l others rule: joinLines.induct)
  case (1 l)
  then show ?case by (simp add: split_no_LF)
next
  case (2 l sep l' others)
  then have l: "LF \<notin> set l" and w: "wellSeparated l' others"
    and sep: "sep = [CR, LF] \<or> (sep = [LF] \<and> (l = [] \<or> last l \<noteq> CR))"
    by simp_all
  from "2.IH" w have IH: "split_newlines (joinLines l' others) = l' # map snd others" by simp
  from sep show ?case
  proof
    assume "sep = [CR, LF]"
    with l IH show ?thesis by (simp add: split_before_CRLF)
  next
    assume "sep = [LF] \<and> (l = [] \<or> last l \<noteq> CR)"
    with l IH show ?thesis by (simp add: split_before_LF)
  qed
qed

lemma every_text_wellSeparated:
  "\<exists>l others. wellSeparated l others \<and> s = joinLines l others"
proof (induction s)
  case Nil
  have "wellSeparated [] [] \<and> [] = joinLines [] []" by simp
  then show ?case by blast
next
  case (Cons c s)
  then obtain l others where w: "wellSeparated l others" and s: "s = joinLines l others" by blast
  show ?case
  proof (cases "c = LF")
    case True
    have "wellSeparated [] (([LF], l) # others) \<and> c # s = joinLines [] (([LF], l) # others)"
      using w s True by simp
    then show ?thesis by blast
  next
    case notLF: False
    show ?thesis
    proof (cases "c = CR \<and> l = [] \<and> (\<exists>l' rest. others = ([LF], l') # rest)")
      case True
      then obtain l' rest where o: "others = ([LF], l') # rest" and c: "c = CR" and l: "l = []"
        by blast
      have "wellSeparated [] (([CR, LF], l') # rest)
            \<and> c # s = joinLines [] (([CR, LF], l') # rest)"
        using w s o c l by simp
      then show ?thesis by blast
    next
      case False
      have "wellSeparated (c # l) others"
      proof (cases others)
        case Nil
        with w notLF show ?thesis by simp
      next
        case (Cons p rest)
        obtain sep l' where p: "p = (sep, l')" by (cases p)
        from w Cons p have a: "LF \<notin> set l" and b: "sep = [CR, LF] \<or> (sep = [LF] \<and> (l = [] \<or> last l \<noteq> CR))"
          and d: "wellSeparated l' rest" by simp_all
        have "sep = [CR, LF] \<or> (sep = [LF] \<and> last (c # l) \<noteq> CR)"
        proof (cases "sep = [CR, LF]")
          case True
          then show ?thesis by simp
        next
          case notCRLF: False
          with b have sep: "sep = [LF]" and e: "l = [] \<or> last l \<noteq> CR" by simp_all
          show ?thesis
          proof (cases "l = []")
            case True
            with False Cons p sep have "c \<noteq> CR" by simp
            with True sep show ?thesis by simp
          next
            case nonempty: False
            with e sep show ?thesis by simp
          qed
        qed
        with a d notLF Cons p show ?thesis by simp
      qed
      moreover have "c # s = joinLines (c # l) others" using s by (cases others) auto
      ultimately show ?thesis by blast
    qed
  qed
qed

lemma char_of_shift:
  assumes "(n::nat) + 32 < 256"
  shows "(char_of (n + 32) = y) = (of_char y = n + 32)"
proof
  assume "char_of (n + 32) = y"
  then have "(of_char y :: nat) = (n + 32) mod 256" by (metis of_char_of)
  with assms show "of_char y = n + 32" by simp
next
  assume "of_char y = n + 32"
  then show "char_of (n + 32) = y" by (metis char_of_char)
qed

lemma lower_char_eq:
  assumes "\<not> isUpper y"
  shows "(toLowerCase_char x = y) = sameLetter x y"
proof (cases "isUpper x")
  case True
  then have "(of_char x :: nat) + 32 < 256" by (simp add: isUpper_def)
  then have "(char_of ((of_char x :: nat) + 32) = y) = ((of_char y :: nat) = of_char x + 32)"
    by (rule char_of_shift)
  moreover from True assms have "x \<noteq> y" by auto
  ultimately show ?thesis using True assms
    by (auto simp: toLowerCase_char_def sameLetter_def isUpper_def Let_def)
next
  case False
  then show ?thesis using assms
    by (auto simp: toLowerCase_char_def sameLetter_def isUpper_def Let_def)
qed

lemma lower_eq:
  "\<forall>y \<in> set t. \<not> isUpper y \<Longrightarrow> (toLowerCase s = t) = equalsIgnoreCase s t"
  unfolding toLowerCase_def equalsIgnoreCase_def
proof (induction s arbitrary: t)
  case Nil
  then show ?case by auto
next
  case (Cons x s)
  then show ?case by (cases t) (auto simp: lower_char_eq)
qed

lemma prefix_iff_take:
  "prefix p xs \<longleftrightarrow> length p \<le> length xs \<and> take (length p) xs = p"
proof
  assume "prefix p xs"
  then obtain zs where "xs = p @ zs" by (auto simp: prefix_def)
  then show "length p \<le> length xs \<and> take (length p) xs = p" by simp
next
  assume "length p \<le> length xs \<and> take (length p) xs = p"
  then have "prefix (take (length p) xs) xs \<Longrightarrow> prefix p xs" by simp
  then show "prefix p xs" by (simp add: take_is_prefix)
qed

lemma lower_prefix:
  assumes "\<forall>y \<in> set p. \<not> isUpper y"
  shows "prefix p (toLowerCase s) = startsWithIgnoreCase s p"
proof -
  have "take (length p) (toLowerCase s) = toLowerCase (take (length p) s)"
    by (simp add: toLowerCase_def take_map)
  then have "prefix p (toLowerCase s) \<longleftrightarrow> length p \<le> length s \<and> toLowerCase (take (length p) s) = p"
    by (simp add: prefix_iff_take toLowerCase_def)
  then show ?thesis using assms by (simp add: startsWithIgnoreCase_def lower_eq)
qed

lemma hasHeader_spec: "hasHeader line = header_spec line"
proof -
  have a: "\<forall>y \<in> set ''id''. \<not> isUpper y" by (simp add: isUpper_def)
  have b: "\<forall>y \<in> set ''id,description''. \<not> isUpper y" by (simp add: isUpper_def)
  have c: "\<forall>y \<in> set ''id,''. \<not> isUpper y" by (simp add: isUpper_def)
  show ?thesis
    unfolding hasHeader_def header_spec_def Let_def
    by (simp only: lower_eq [OF a] lower_eq [OF b] lower_prefix [OF c])
qed

lemma parseInput_parseLines: "parseInput raw = parseLines (inputLines raw)"
  by (cases "inputLines raw") (simp_all add: parseInput_def parseLines_def itemsOf_def Let_def)

lemma parseInput_dataLines: "parseInput raw = itemsOf (dataLines raw)"
  by (cases "inputLines raw")
     (simp_all add: parseInput_def dataLines_def itemsOf_def Let_def)

lemma parseLine_None: "parseLine line = None \<longleftrightarrow> firstField line = []"
  by (simp add: parseLine_def firstField_def Let_def)

lemma parseLine_Some: "parseLine line = Some e \<Longrightarrow> item_id e = firstField line \<and> item_id e \<noteq> []"
  by (auto simp: parseLine_def firstField_def Let_def split: if_splits)

lemma itemsOf_ids:
  "map item_id (itemsOf ls) = filter (\<lambda>i. i \<noteq> []) (map firstField ls)"
proof (induction ls)
  case Nil
  show ?case by (simp add: itemsOf_def)
next
  case (Cons l ls)
  show ?case
  proof (cases "parseLine l")
    case None
    with Cons show ?thesis by (simp add: itemsOf_def parseLine_None [symmetric])
  next
    case (Some e)
    from parseLine_Some [OF Some] have "firstField l \<noteq> []" and "item_id e = firstField l"
      by auto
    with Cons Some show ?thesis by (simp add: itemsOf_def)
  qed
qed

section \<open>Properties of the orchestrator\<close>

lemma suspend_fields [simp]:
  "aborted (suspend env w) = (aborted w \<or> cancelClick env (clock w))"
  "progress (suspend env w) = progress w"
  "requests (suspend env w) = requests w"
  "sleeps (suspend env w) = sleeps w"
  "clock (suspend env w) = Suc (clock w)"
  by (simp_all add: suspend_def)

lemma fetch_fields [simp]:
  "aborted (snd (fetch env req w)) = (aborted w \<or> cancelClick env (clock w))"
  "progress (snd (fetch env req w)) = progress w"
  "requests (snd (fetch env req w)) = requests w @ [req]"
  by (simp_all add: fetch_def)

lemma addItemToList_aborted: "aborted w \<Longrightarrow> aborted (snd (addItemToList env l c w))"
  by (simp add: addItemToList_def Let_def split_beta
       split: fetch_result.splits body.splits option.splits)

lemma addItemToList_progress: "progress (snd (addItemToList env l c w)) = progress w"
  by (simp add: addItemToList_def Let_def split_beta
       split: fetch_result.splits body.splits option.splits)

lemma addItemToList_quiet:
  "\<forall>t. \<not> cancelClick env t \<Longrightarrow> aborted (snd (addItemToList env l c w)) = aborted w"
  by (simp add: addItemToList_def Let_def split_beta
       split: fetch_result.splits body.splits option.splits)

lemma updateDescription_aborted: "aborted w \<Longrightarrow> aborted (snd (updateDescription env l c d w))"
  by (simp add: updateDescription_def Let_def split_beta
       split: fetch_result.splits body.splits option.splits)

lemma updateDescription_progress: "progress (snd (updateDescription env l c d w)) = progress w"
  by (simp add: updateDescription_def Let_def split_beta
       split: fetch_result.splits body.splits option.splits)

lemma updateDescription_quiet:
  "\<forall>t. \<not> cancelClick env t \<Longrightarrow> aborted (snd (updateDescription env l c d w)) = aborted w"
  by (simp add: updateDescription_def Let_def split_beta
       split: fetch_result.splits body.splits option.splits)

lemma tryItem_aborted: "aborted w \<Longrightarrow> aborted (snd (tryItem env l it st w))"
  by (simp add: tryItem_def Let_def split_beta addItemToList_aborted updateDescription_aborted
       split: sum.splits)

lemma tryItem_quiet:
  "\<forall>t. \<not> cancelClick env t \<Longrightarrow> aborted (snd (tryItem env l it st w)) = aborted w"
  by (simp add: tryItem_def Let_def split_beta addItemToList_quiet updateDescription_quiet
       split: sum.splits)

lemma tryItem_progress: "progress (snd (tryItem env l it st w)) = progress w"
  by (simp add: tryItem_def Let_def split_beta addItemToList_progress updateDescription_progress
       split: sum.splits)

lemma tryItem_outcome:
  "error (fst (tryItem env l it st w))
     = (case itemFailure env l it w of Some m \<Rightarrow> Some m | None \<Rightarrow> error st)"
  "ok (fst (tryItem env l it st w)) = (if itemFailure env l it w = None then True else ok st)"
  "index (fst (tryItem env l it st w)) = index st"
  "status_id (fst (tryItem env l it st w)) = status_id st"
  by (simp_all add: tryItem_def itemFailure_def Let_def split_beta split: sum.splits)

lemma body_fst:
  "fst (processItems_body env opts l items i rs w)
     = rs @ [fst (tryItem env l (items ! i) (initialStatus items i) w)]"
  by (simp add: processItems_body_def initialStatus_def Let_def split_beta)

lemma body_progress:
  "progress (snd (processItems_body env opts l items i rs w))
     = progress w @ [(i + 1, length items, fst (tryItem env l (items ! i) (initialStatus items i) w))]"
  by (simp add: processItems_body_def initialStatus_def Let_def split_beta onProgress_def sleep_def
        tryItem_progress)

lemma body_aborted: "aborted w \<Longrightarrow> aborted (snd (processItems_body env opts l items i rs w))"
  by (simp add: processItems_body_def Let_def split_beta onProgress_def sleep_def getAborted_def
        tryItem_aborted)

lemma body_quiet:
  "\<forall>t. \<not> cancelClick env t \<Longrightarrow>
   aborted (snd (processItems_body env opts l items i rs w)) = aborted w"
  by (simp add: processItems_body_def Let_def split_beta onProgress_def sleep_def getAborted_def
        tryItem_quiet)

lemma run_Suc:
  "run_items env opts l items (Suc k) w
     = processItems_body env opts l items k (fst (run_items env opts l items k w))
         (snd (run_items env opts l items k w))"
  by (simp add: run_items.simps(2) split_beta)

lemma run_fst_Suc:
  "fst (run_items env opts l items (Suc k) w)
     = fst (run_items env opts l items k w)
       @ [fst (tryItem env l (items ! k) (initialStatus items k) (snd (run_items env opts l items k w)))]"
  by (simp add: run_Suc body_fst)

lemma run_length: "length (fst (run_items env opts l items k w)) = k"
  by (induction k) (simp_all add: run_fst_Suc)

lemma run_nth:
  "j < k \<Longrightarrow> fst (run_items env opts l items k w) ! j
     = fst (tryItem env l (items ! j) (initialStatus items j) (snd (run_items env opts l items j w)))"
proof (induction k)
  case 0
  then show ?case by simp
next
  case (Suc k)
  show ?case
  proof (cases "j = k")
    case True
    then show ?thesis by (simp add: run_fst_Suc run_length nth_append)
  next
    case False
    with Suc show ?thesis by (simp add: run_fst_Suc run_length nth_append)
  qed
qed

lemma run_aborted_mono:
  "aborted (snd (run_items env opts l items j w)) \<Longrightarrow> j \<le> k \<Longrightarrow>
   aborted (snd (run_items env opts l items k w))"
proof (induction k)
  case 0
  then show ?case by simp
next
  case (Suc k)
  show ?case
  proof (cases "j = Suc k")
    case True
    with Suc.prems show ?thesis by simp
  next
    case False
    with Suc have "aborted (snd (run_items env opts l items k w))" by simp
    then show ?thesis by (simp only: run_Suc body_aborted)
  qed
qed

lemma run_quiet:
  "\<forall>t. \<not> cancelClick env t \<Longrightarrow> aborted (snd (run_items env opts l items k w)) = aborted w"
proof (induction k)
  case 0
  show ?case by simp
next
  case (Suc k)
  then show ?case by (simp add: run_Suc body_quiet)
qed

lemma run_progress:
  "progress (snd (run_items env opts l items k w))
     = progress w @ map (\<lambda>j. (j + 1, length items, fst (run_items env opts l items k w) ! j)) [0..<k]"
proof (induction k)
  case 0
  then show ?case by simp
next
  case (Suc k)
  have "map (\<lambda>j. (j + 1, length items, fst (run_items env opts l items (Suc k) w) ! j)) [0..<k]
        = map (\<lambda>j. (j + 1, length items, fst (run_items env opts l items k w) ! j)) [0..<k]"
    by (simp add: run_fst_Suc run_length nth_append)
  moreover have "fst (run_items env opts l items (Suc k) w) ! k
        = fst (tryItem env l (items ! k) (initialStatus items k) (snd (run_items env opts l items k w)))"
    by (simp add: run_nth)
  ultimately show ?case using Suc
    by (simp add: run_Suc body_progress)
qed

lemma loop_stop:
  "aborted w \<or> \<not> i < length items \<Longrightarrow> processItems_loop env opts l items i rs w = (rs, w)"
  by (subst processItems_loop.simps) (auto simp: getAborted_def)

lemma loop_step:
  "i < length items \<Longrightarrow> \<not> aborted w \<Longrightarrow>
   processItems_loop env opts l items i rs w
     = processItems_loop env opts l items (Suc i)
         (fst (processItems_body env opts l items i rs w))
         (snd (processItems_body env opts l items i rs w))"
  by (subst processItems_loop.simps) (simp add: getAborted_def split_beta)

lemma loop_run:
  "i \<le> length items \<Longrightarrow>
   \<exists>k. i \<le> k \<and> k \<le> length items
     \<and> processItems_loop env opts l items i (fst (run_items env opts l items i w))
           (snd (run_items env opts l items i w)) = run_items env opts l items k w
     \<and> (\<forall>j. i \<le> j \<and> j < k \<longrightarrow> \<not> aborted (snd (run_items env opts l items j w)))
     \<and> (k = length items \<or> aborted (snd (run_items env opts l items k w)))"
proof (induction "length items - i" arbitrary: i)
  case 0
  then have "i = length items" by simp
  then show ?case by (intro exI [of _ i]) (auto simp: loop_stop)
next
  case (Suc d)
  then have less: "i < length items" by simp
  show ?case
  proof (cases "aborted (snd (run_items env opts l items i w))")
    case True
    with less show ?thesis by (intro exI [of _ i]) (auto simp: loop_stop)
  next
    case False
    from Suc have "d = length items - Suc i" and "Suc i \<le> length items" by simp_all
    from Suc.hyps(1) [OF this] obtain k where k:
      "Suc i \<le> k" "k \<le> length items"
      "processItems_loop env opts l items (Suc i) (fst (run_items env opts l items (Suc i) w))
           (snd (run_items env opts l items (Suc i) w)) = run_items env opts l items k w"
      "\<forall>j. Suc i \<le> j \<and> j < k \<longrightarrow> \<not> aborted (snd (run_items env opts l items j w))"
      "k = length items \<or> aborted (snd (run_items env opts l items k w))"
      by blast
    have "processItems_loop env opts l items i (fst (run_items env opts l items i w))
           (snd (run_items env opts l items i w)) = run_items env opts l items k w"
      using less False k(3) by (simp add: loop_step run_Suc)
    moreover have "\<forall>j. i \<le> j \<and> j < k \<longrightarrow> \<not> aborted (snd (run_items env opts l items j w))"
      using False k(4) by (metis Suc_leI le_neq_implies_less)
    ultimately show ?thesis using k(1,2,5) by (intro exI [of _ k]) simp
  qed
qed

lemma processItems_run:
  assumes "getListId env = Some l"
  shows "\<exists>k \<le> length items.
     processItems env opts items w = (Inr (fst (run_items env opts l items k w)),
                                      snd (run_items env opts l items k w))
     \<and> (\<forall>j < k. \<not> aborted (snd (run_items env opts l items j w)))
     \<and> (k = length items \<or> aborted (snd (run_items env opts l items k w)))"
proof -
  from loop_run [of 0 items env opts l w] obtain k where k:
    "k \<le> length items"
    "processItems_loop env opts l items 0 [] w = run_items env opts l items k w"
    "\<forall>j < k. \<not> aborted (snd (run_items env opts l items j w))"
    "k = length items \<or> aborted (snd (run_items env opts l items k w))"
    by auto
  show ?thesis using assms k by (intro exI [of _ k]) (simp add: processItems_def split_beta)
qed

lemma sample_listId: "getListId sample_env = Some ''ls123''"
  by (simp add: getListId_def sample_env_def isDigit_def)

lemma cancel_listId: "getListId cancel_env = Some ''ls123''"
  by (simp add: getListId_def cancel_env_def sample_env_def isDigit_def)

lemma sample_add:
  "addItemToList sample_env ''ls123'' ''tt1'' initialWorld
     = (Inr (Some sample_added),
        \<lparr>clock = 2, aborted = False, requests = [AddConstToList ''ls123'' ''tt1''],
         progress = [], sleeps = []\<rparr>)"
  by code_simp

lemma sample_update:
  "updateDescription sample_env ''ls123'' ''li1'' ''x''
     \<lparr>clock = 2, aborted = False, requests = [AddConstToList ''ls123'' ''tt1''],
         progress = [], sleeps = []\<rparr>
     = (Inl ''Forbidden'',
        \<lparr>clock = 4, aborted = False,
         requests = [AddConstToList ''ls123'' ''tt1'', EditListItemDescription ''ls123'' ''li1'' ''x''],
         progress = [], sleeps = []\<rparr>)"
  by code_simp

lemma sample_run:
  "fst (processItems sample_env sample_opts two_items initialWorld) = Inr two_outcomes"
  by code_simp

lemma sample_run_progress:
  "progress (snd (processItems sample_env sample_opts two_items initialWorld))
     = [(1, 2, two_outcomes ! 0), (2, 2, two_outcomes ! 1)]"
  by code_simp

section \<open>The claims\<close>

text \<open>
  C1, as the code has it. When the add call succeeds for an item with a non-empty description
  and the description call that follows fails, the outcome of the item is a failure: \<open>ok\<close> is
  false and \<open>error\<close> is the message of the description error. The outcome is appended to the
  results and passed to \<open>onProgress\<close>.
\<close>

theorem annotation_failure_fails_item:
  assumes "addItemToList env l (item_id (items ! i)) w = (Inr added, w1)"
    and "description (items ! i) \<noteq> []"
    and "truthy (Option.bind added itemId)"
    and "updateDescription env l (the (Option.bind added itemId)) (description (items ! i)) w1
           = (Inl message, w2)"
  shows "\<exists>st w3. processItems_body env opts l items i results w = (results @ [st], w3)
     \<and> ok st = False \<and> error st = Some message
     \<and> status_id st = item_id (items ! i) \<and> index st = i
     \<and> progress w3 = progress w @ [(i + 1, length items, st)]"
proof -
  let ?st = "fst (tryItem env l (items ! i) (initialStatus items i) w)"
  have f: "itemFailure env l (items ! i) w = Some message"
    using assms by (simp add: itemFailure_def)
  have "fst (processItems_body env opts l items i results w) = results @ [?st]"
    by (rule body_fst)
  moreover have "ok ?st = False \<and> error ?st = Some message
      \<and> status_id ?st = item_id (items ! i) \<and> index ?st = i"
    using f by (simp add: tryItem_outcome initialStatus_def)
  moreover have "progress (snd (processItems_body env opts l items i results w))
      = progress w @ [(i + 1, length items, ?st)]"
    by (rule body_progress)
  ultimately show ?thesis
    by (intro exI [of _ ?st] exI [of _ "snd (processItems_body env opts l items i results w)"])
       (simp add: prod_eq_iff)
qed

theorem annotation_failure_fails_item_witness:
  "\<exists>st w3. processItems_body sample_env sample_opts ''ls123'' [annotated_item] 0 [] initialWorld
       = ([st], w3)
     \<and> ok st = False \<and> error st = Some ''Forbidden'' \<and> status_id st = ''tt1'' \<and> index st = 0
     \<and> progress w3 = [(1, 1, st)]"
proof -
  have a: "addItemToList sample_env ''ls123'' (item_id ([annotated_item] ! 0)) initialWorld
     = (Inr (Some sample_added),
        \<lparr>clock = 2, aborted = False, requests = [AddConstToList ''ls123'' ''tt1''],
         progress = [], sleeps = []\<rparr>)"
    using sample_add by (simp add: annotated_item_def)
  have b: "description ([annotated_item] ! 0) \<noteq> []" by (simp add: annotated_item_def)
  have c: "truthy (Option.bind (Some sample_added) itemId)"
    by (simp add: truthy_def sample_added_def)
  have d: "updateDescription sample_env ''ls123'' (the (Option.bind (Some sample_added) itemId))
       (description ([annotated_item] ! 0))
       \<lparr>clock = 2, aborted = False, requests = [AddConstToList ''ls123'' ''tt1''],
         progress = [], sleeps = []\<rparr>
     = (Inl ''Forbidden'',
        \<lparr>clock = 4, aborted = False,
         requests = [AddConstToList ''ls123'' ''tt1'', EditListItemDescription ''ls123'' ''li1'' ''x''],
         progress = [], sleeps = []\<rparr>)"
    using sample_update by (simp add: annotated_item_def sample_added_def)
  from annotation_failure_fails_item [OF a b c d, of sample_opts "[]"]
  show ?thesis by (simp add: annotated_item_def initialWorld_def)
qed

text \<open>
  On the sample page the add call for \<open>tt1\<close> succeeds and the description call fails; the
  outcome reported is not a success, against C1 as it is written.
\<close>

theorem annotation_failure_counterexample:
  "fst (addItemToList sample_env ''ls123'' ''tt1'' initialWorld) = Inr (Some sample_added)
   \<and> description annotated_item \<noteq> []
   \<and> fst (updateDescription sample_env ''ls123'' ''li1'' ''x''
            (snd (addItemToList sample_env ''ls123'' ''tt1'' initialWorld))) = Inl ''Forbidden''
   \<and> fst (processItems sample_env sample_opts [annotated_item] initialWorld)
       = Inr [\<lparr>status_id = ''tt1'', index = 0, ok = False, error = Some ''Forbidden'',
               title = ''Heat''\<rparr>]"
  by (simp add: sample_add sample_update annotated_item_def) code_simp

text \<open>
  C2. Cancellation is polled and the flag only ever goes from false to true. If the flag is
  false when item \<open>K\<close> starts and true when item \<open>K + 1\<close> would start, the run returns exactly
  \<open>K + 1\<close> outcomes, the last one being that of item \<open>K\<close>, recorded and passed to
  \<open>onProgress\<close>; the final world is the one in which the flag was seen, so nothing was started
  afterwards. From any point of the loop at which the flag is true, no further item is started.
\<close>

theorem cancel_after_item:
  assumes "getListId env = Some l" and "K < length items"
    and "\<not> aborted (snd (run_items env opts l items K w))"
    and "aborted (snd (run_items env opts l items (Suc K) w))"
  shows "\<exists>results w'. processItems env opts items w = (Inr results, w')
     \<and> length results = K + 1
     \<and> index (results ! K) = K \<and> status_id (results ! K) = item_id (items ! K)
     \<and> progress w' = progress w @ map (\<lambda>j. (j + 1, length items, results ! j)) [0..<K + 1]
     \<and> w' = snd (run_items env opts l items (Suc K) w) \<and> aborted w'
     \<and> (\<forall>i rs v. aborted v \<longrightarrow> processItems_loop env opts l items i rs v = (rs, v))
     \<and> (\<forall>v. aborted v \<longrightarrow> aborted (suspend env v))"
proof -
  from processItems_run [OF assms(1)] obtain k where k:
    "k \<le> length items"
    "processItems env opts items w = (Inr (fst (run_items env opts l items k w)),
                                      snd (run_items env opts l items k w))"
    "\<forall>j < k. \<not> aborted (snd (run_items env opts l items j w))"
    "k = length items \<or> aborted (snd (run_items env opts l items k w))"
    by blast
  have "\<not> k \<le> K"
  proof
    assume le: "k \<le> K"
    with assms(2) k(4) have "aborted (snd (run_items env opts l items k w))" by simp
    from run_aborted_mono [OF this le] assms(3) show False by simp
  qed
  moreover have "\<not> Suc K < k" using k(3) assms(4) by blast
  ultimately have kK: "k = Suc K" by simp
  let ?rs = "fst (run_items env opts l items (Suc K) w)"
  let ?w = "snd (run_items env opts l items (Suc K) w)"
  have "length ?rs = K + 1" by (simp add: run_length)
  moreover have "index (?rs ! K) = K \<and> status_id (?rs ! K) = item_id (items ! K)"
    by (simp add: run_nth tryItem_outcome initialStatus_def)
  moreover have "progress ?w = progress w @ map (\<lambda>j. (j + 1, length items, ?rs ! j)) [0..<K + 1]"
    using run_progress [of env opts l items "Suc K" w] by simp
  moreover have "\<forall>i rs v. aborted v \<longrightarrow> processItems_loop env opts l items i rs v = (rs, v)"
    by (simp add: loop_stop)
  moreover have "\<forall>v. aborted v \<longrightarrow> aborted (suspend env v)" by simp
  ultimately show ?thesis using k(2) assms(4) unfolding kK by blast
qed

theorem cancel_after_item_witness:
  "getListId cancel_env = Some ''ls123''
   \<and> \<not> aborted (snd (run_items cancel_env sample_opts ''ls123''
          [\<lparr>item_id = ''tt1'', description = []\<rparr>, \<lparr>item_id = ''tt2'', description = []\<rparr>] 0 initialWorld))
   \<and> aborted (snd (run_items cancel_env sample_opts ''ls123''
          [\<lparr>item_id = ''tt1'', description = []\<rparr>, \<lparr>item_id = ''tt2'', description = []\<rparr>] (Suc 0) initialWorld))
   \<and> (\<exists>results w'.
         processItems cancel_env sample_opts
           [\<lparr>item_id = ''tt1'', description = []\<rparr>, \<lparr>item_id = ''tt2'', description = []\<rparr>]
           initialWorld = (Inr results, w')
         \<and> length results = 1 \<and> index (results ! 0) = 0 \<and> status_id (results ! 0) = ''tt1''
         \<and> progress w' = [(1, 2, results ! 0)] \<and> aborted w')"
proof -
  let ?items = "[\<lparr>item_id = ''tt1'', description = []\<rparr>, \<lparr>item_id = ''tt2'', description = []\<rparr>]"
  have h2: "0 < length ?items" by simp
  have h3: "\<not> aborted (snd (run_items cancel_env sample_opts ''ls123'' ?items 0 initialWorld))"
    by (simp add: initialWorld_def)
  have h4: "aborted (snd (run_items cancel_env sample_opts ''ls123'' ?items (Suc 0) initialWorld))"
    by code_simp
  from cancel_after_item [OF cancel_listId h2 h3 h4]
  obtain results w' where r:
    "processItems cancel_env sample_opts ?items initialWorld = (Inr results, w')"
    "length results = 0 + 1"
    "index (results ! 0) = 0" "status_id (results ! 0) = item_id (?items ! 0)"
    "progress w' = progress initialWorld
       @ map (\<lambda>j. (j + 1, length ?items, results ! j)) [0..<0 + 1]"
    "aborted w'"
    by blast
  from r(2) have "length results = 1" by simp
  moreover from r(4) have "status_id (results ! 0) = ''tt1''" by simp
  moreover from r(5) have "progress w' = [(1, 2, results ! 0)]"
    by (simp add: initialWorld_def)
  ultimately show ?thesis using cancel_listId h3 h4 r(1) r(3) r(6) by blast
qed

text \<open>
  C3. When the list identifier cannot be resolved from the page, \<open>processItems\<close> fails at once
  with an error and produces no list of results; the world is the one it was called in, so
  no request has been sent and \<open>onProgress\<close> has not been called.
\<close>

theorem no_listId_fails:
  "getListId env = None \<Longrightarrow>
   processItems env opts items w = (Inl ''Could not determine list ID from URL.'', w)"
  by (simp add: processItems_def)

theorem no_listId_fails_witness:
  "getListId (sample_env\<lparr>pathname := ''/chart/top''\<rparr>) = None
   \<and> processItems (sample_env\<lparr>pathname := ''/chart/top''\<rparr>) sample_opts
        [\<lparr>item_id = ''tt1'', description = []\<rparr>] initialWorld
      = (Inl ''Could not determine list ID from URL.'', initialWorld)"
proof -
  have h: "getListId (sample_env\<lparr>pathname := ''/chart/top''\<rparr>) = None"
    by (simp add: getListId_def sample_env_def isDigit_def)
  show ?thesis using h no_listId_fails [OF h] by simp
qed

text \<open>
  C4. When the list identifier resolves, \<open>processItems\<close> returns a list of results, never an
  error, whatever the remote calls do. An item whose remote call fails with message \<open>m\<close> gets
  an outcome with \<open>ok\<close> false and \<open>error\<close> equal to \<open>m\<close>, and the loop goes on: the results
  fall short of the batch only when the run was cancelled.
\<close>

theorem item_failure_isolated:
  assumes "getListId env = Some l"
  shows "\<exists>results w'. processItems env opts items w = (Inr results, w')
     \<and> (length results = length items \<or> aborted w')
     \<and> (\<forall>j < length results. \<forall>m.
           itemFailure env l (items ! j) (snd (run_items env opts l items j w)) = Some m
           \<longrightarrow> ok (results ! j) = False \<and> error (results ! j) = Some m)"
proof -
  from processItems_run [OF assms] obtain k where k:
    "k \<le> length items"
    "processItems env opts items w = (Inr (fst (run_items env opts l items k w)),
                                      snd (run_items env opts l items k w))"
    "k = length items \<or> aborted (snd (run_items env opts l items k w))"
    by blast
  let ?rs = "fst (run_items env opts l items k w)"
  have "length ?rs = length items \<or> aborted (snd (run_items env opts l items k w))"
    using k(3) by (auto simp: run_length)
  moreover have "\<forall>j < length ?rs. \<forall>m.
           itemFailure env l (items ! j) (snd (run_items env opts l items j w)) = Some m
           \<longrightarrow> ok (?rs ! j) = False \<and> error (?rs ! j) = Some m"
    by (simp add: run_length run_nth tryItem_outcome initialStatus_def)
  ultimately show ?thesis using k(2) by blast
qed

theorem item_failure_isolated_witness:
  "getListId sample_env = Some ''ls123''
   \<and> itemFailure sample_env ''ls123'' \<lparr>item_id = ''tt0'', description = []\<rparr> initialWorld = Some http500
   \<and> (\<exists>results w'.
         processItems sample_env sample_opts
           [\<lparr>item_id = ''tt0'', description = []\<rparr>, \<lparr>item_id = ''tt2'', description = []\<rparr>]
           initialWorld = (Inr results, w')
         \<and> length results = 2 \<and> ok (results ! 0) = False \<and> error (results ! 0) = Some http500)"
proof -
  let ?items = "[\<lparr>item_id = ''tt0'', description = []\<rparr>, \<lparr>item_id = ''tt2'', description = []\<rparr>]"
  have f: "itemFailure sample_env ''ls123'' \<lparr>item_id = ''tt0'', description = []\<rparr> initialWorld = Some http500"
    by code_simp
  have q: "\<forall>t. \<not> cancelClick sample_env t" by (simp add: sample_env_def)
  from item_failure_isolated [OF sample_listId, of sample_opts ?items initialWorld]
  obtain results w' where r:
    "processItems sample_env sample_opts ?items initialWorld = (Inr results, w')"
    "length results = length ?items \<or> aborted w'"
    "\<forall>j < length results. \<forall>m.
       itemFailure sample_env ''ls123'' (?items ! j)
         (snd (run_items sample_env sample_opts ''ls123'' ?items j initialWorld)) = Some m
       \<longrightarrow> ok (results ! j) = False \<and> error (results ! j) = Some m"
    by blast
  from processItems_run [OF sample_listId, of ?items sample_opts initialWorld] r(1) q
  have "\<not> aborted w'" by (auto simp: run_quiet initialWorld_def)
  with r(2) have len: "length results = 2" by simp
  with r(3) f have "ok (results ! 0) = False \<and> error (results ! 0) = Some http500" by simp
  with len show ?thesis using sample_listId f r(1) by blast
qed

text \<open>
  C5. With no cancellation, a batch of \<open>N\<close> items yields \<open>N\<close> results, the result at position
  \<open>j\<close> carrying index \<open>j\<close> and the identifier of item \<open>j\<close>; \<open>onProgress\<close> is called exactly \<open>N\<close>
  times, in the order of the batch, the \<open>j\<close>-th call with the count \<open>j + 1\<close>, the total \<open>N\<close>
  and that result; and the flag is still false at the end.
\<close>

theorem processItems_complete:
  assumes "getListId env = Some l" and "\<forall>t. \<not> cancelClick env t" and "\<not> aborted w"
  shows "\<exists>results w'. processItems env opts items w = (Inr results, w')
     \<and> length results = length items
     \<and> (\<forall>j < length items. index (results ! j) = j \<and> status_id (results ! j) = item_id (items ! j))
     \<and> progress w' = progress w @ map (\<lambda>j. (j + 1, length items, results ! j)) [0..<length items]
     \<and> \<not> aborted w'"
proof -
  from processItems_run [OF assms(1)] obtain k where k:
    "k \<le> length items"
    "processItems env opts items w = (Inr (fst (run_items env opts l items k w)),
                                      snd (run_items env opts l items k w))"
    "k = length items \<or> aborted (snd (run_items env opts l items k w))"
    by blast
  from assms(2,3) have quiet: "\<not> aborted (snd (run_items env opts l items k w))"
    by (simp add: run_quiet)
  with k(3) have kN: "k = length items" by simp
  let ?rs = "fst (run_items env opts l items k w)" and ?w = "snd (run_items env opts l items k w)"
  have "length ?rs = length items" by (simp add: run_length kN)
  moreover have "\<forall>j < length items. index (?rs ! j) = j \<and> status_id (?rs ! j) = item_id (items ! j)"
    by (simp add: kN run_nth tryItem_outcome initialStatus_def)
  moreover have "progress ?w = progress w @ map (\<lambda>j. (j + 1, length items, ?rs ! j)) [0..<length items]"
    using run_progress [of env opts l items k w] by (simp add: kN)
  ultimately show ?thesis using k(2) quiet by blast
qed

theorem processItems_complete_witness:
  "getListId sample_env = Some ''ls123'' \<and> (\<forall>t. \<not> cancelClick sample_env t) \<and> \<not> aborted initialWorld
   \<and> (\<exists>results w'.
         processItems sample_env sample_opts
           [\<lparr>item_id = ''tt0'', description = []\<rparr>, \<lparr>item_id = ''tt2'', description = ''fine''\<rparr>]
           initialWorld = (Inr results, w')
         \<and> length results = 2 \<and> index (results ! 0) = 0 \<and> index (results ! 1) = 1
         \<and> progress w' = [(1, 2, results ! 0), (2, 2, results ! 1)] \<and> \<not> aborted w')"
proof -
  let ?items = "[\<lparr>item_id = ''tt0'', description = []\<rparr>, \<lparr>item_id = ''tt2'', description = ''fine''\<rparr>]"
  have h2: "\<forall>t. \<not> cancelClick sample_env t" by (simp add: sample_env_def)
  have h3: "\<not> aborted initialWorld" by (simp add: initialWorld_def)
  have u: "[0..<2] = [0, 1]" by (simp add: upt_rec)
  from processItems_complete [OF sample_listId h2 h3, of sample_opts ?items]
  obtain results w' where r:
    "processItems sample_env sample_opts ?items initialWorld = (Inr results, w')"
    "length results = length ?items"
    "\<forall>j < length ?items. index (results ! j) = j \<and> status_id (results ! j) = item_id (?items ! j)"
    "progress w' = progress initialWorld
       @ map (\<lambda>j. (j + 1, length ?items, results ! j)) [0..<length ?items]"
    "\<not> aborted w'"
    by blast
  from r(2) have "length results = 2" by simp
  moreover from r(3) have "index (results ! 0) = 0" and "index (results ! 1) = 1" by simp_all
  moreover from r(4) have "progress w' = [(1, 2, results ! 0), (2, 2, results ! 1)]"
    by (simp add: initialWorld_def u)
  ultimately show ?thesis using sample_listId h2 h3 r(1) r(5) by blast
qed

text \<open>
  C6. Every item that \<open>parseInput\<close> returns has a non-empty identifier; a line whose first
  field trims to the empty text yields no item, and the identifiers returned are exactly
  the non-empty trimmed first fields of the data lines, in order.
\<close>

theorem parseInput_ids_nonempty:
  "(\<forall>e \<in> set (parseInput raw). item_id e \<noteq> [])
   \<and> (\<forall>line. firstField line = [] \<longrightarrow> parseLine line = None)
   \<and> map item_id (parseInput raw) = filter (\<lambda>i. i \<noteq> []) (map firstField (dataLines raw))"
proof -
  have ids: "map item_id (parseInput raw) = filter (\<lambda>i. i \<noteq> []) (map firstField (dataLines raw))"
    by (simp add: parseInput_dataLines itemsOf_ids)
  have "\<forall>i \<in> set (map item_id (parseInput raw)). i \<noteq> []"
    unfolding ids by simp
  then have "\<forall>e \<in> set (parseInput raw). item_id e \<noteq> []" by simp
  with ids show ?thesis by (simp add: parseLine_None)
qed

theorem parseInput_ids_nonempty_witness:
  "firstField '' ,dropped'' = [] \<and> parseLine '' ,dropped'' = None
   \<and> dataLines two_rows = ['',dropped'', ''tt9'']
   \<and> parseInput two_rows = [\<lparr>item_id = ''tt9'', description = []\<rparr>]
   \<and> item_id (hd (parseInput two_rows)) \<noteq> []"
proof -
  have a: "firstField '' ,dropped'' = []" by code_simp
  have b: "dataLines two_rows = ['',dropped'', ''tt9'']" by code_simp
  have c: "parseInput two_rows = [\<lparr>item_id = ''tt9'', description = []\<rparr>]" by code_simp
  from parseInput_ids_nonempty [of two_rows]
  have d: "\<forall>e \<in> set (parseInput two_rows). item_id e \<noteq> []"
    and e: "\<forall>line. firstField line = [] \<longrightarrow> parseLine line = None"
    by blast+
  from c have "hd (parseInput two_rows) \<in> set (parseInput two_rows)" by simp
  with d have "item_id (hd (parseInput two_rows)) \<noteq> []" by blast
  moreover from e a have "parseLine '' ,dropped'' = None" by blast
  ultimately show ?thesis using a b c by blast
qed

text \<open>
  C7. \<open>parseInput\<close> drops the first surviving line exactly when that line, letter case
  ignored, equals \<open>id\<close>, equals \<open>id,description\<close> or starts with \<open>id,\<close>; otherwise every
  surviving line is treated as data.
\<close>

theorem header_detection:
  "parseInput raw =
     (case inputLines raw of
        [] \<Rightarrow> []
      | first # rest \<Rightarrow> if header_spec first then itemsOf rest else itemsOf (first # rest))"
  by (cases "inputLines raw")
     (simp_all add: parseInput_def itemsOf_def Let_def hasHeader_spec)

theorem header_detection_witness:
  "inputLines with_header = [''ID,Description'', ''tt1,'' @ [dquote] @ ''d'' @ [dquote]]
   \<and> header_spec ''ID,Description''
   \<and> parseInput with_header = itemsOf [''tt1,'' @ [dquote] @ ''d'' @ [dquote]]
   \<and> inputLines without_header = [''tt1,'' @ [dquote] @ ''d'' @ [dquote]]
   \<and> \<not> header_spec (''tt1,'' @ [dquote] @ ''d'' @ [dquote])
   \<and> parseInput without_header = itemsOf [''tt1,'' @ [dquote] @ ''d'' @ [dquote]]"
proof -
  have a: "inputLines with_header = [''ID,Description'', ''tt1,'' @ [dquote] @ ''d'' @ [dquote]]"
    by code_simp
  have b: "header_spec ''ID,Description''" by code_simp
  have c: "inputLines without_header = [''tt1,'' @ [dquote] @ ''d'' @ [dquote]]" by code_simp
  have d: "\<not> header_spec (''tt1,'' @ [dquote] @ ''d'' @ [dquote])" by code_simp
  from header_detection [of with_header] header_detection [of without_header] a b c d
  show ?thesis by simp
qed

text \<open>
  C8. Splitting respects double quotes: inside quotes a comma is kept as a character of the
  field and does not end it, and two quotes in a row give one quote character. Hence a line
  written from a non-empty list of fields, with each field that holds a comma or a quote put
  in double quotes and its quotes doubled, is split back into those very fields. In
  particular the text \<open>tt1,"a, b"\<close> parses to the one item with identifier \<open>tt1\<close> and
  description \<open>a, b\<close>.
\<close>

theorem splitCSVLine_quoted_fields:
  "(\<forall>rest acc cur. splitCSVLine_loop (comma # rest) acc cur True
        = splitCSVLine_loop rest acc (cur @ [comma]) True)
   \<and> (\<forall>rest acc cur. splitCSVLine_loop (dquote # dquote # rest) acc cur True
        = splitCSVLine_loop rest acc (cur @ [dquote]) True)
   \<and> (fs \<noteq> [] \<longrightarrow> splitCSVLine (join [comma] (map csv_escape fs)) = fs)
   \<and> parseInput (''tt1,'' @ [dquote] @ ''a, b'' @ [dquote])
       = [\<lparr>item_id = ''tt1'', description = ''a, b''\<rparr>]"
proof -
  have "fs \<noteq> [] \<longrightarrow> splitCSVLine (join [comma] (map csv_escape fs)) = fs"
    using loop_join [of "hd fs" "tl fs" "[]"] by (cases fs) (simp_all add: splitCSVLine_def)
  moreover have "parseInput (''tt1,'' @ [dquote] @ ''a, b'' @ [dquote])
       = [\<lparr>item_id = ''tt1'', description = ''a, b''\<rparr>]"
    by code_simp
  moreover have "\<forall>rest acc cur. splitCSVLine_loop (comma # rest) acc cur True
        = splitCSVLine_loop rest acc (cur @ [comma]) True"
    by simp
  moreover have "\<forall>rest acc cur. splitCSVLine_loop (dquote # dquote # rest) acc cur True
        = splitCSVLine_loop rest acc (cur @ [dquote]) True"
    by simp
  ultimately show ?thesis by blast
qed

theorem splitCSVLine_quoted_fields_witness:
  "join [comma] (map csv_escape [''tt1'', ''a, b'', ''say '' @ [dquote] @ ''hi'' @ [dquote]])
     = ''tt1,'' @ [dquote] @ ''a, b'' @ [dquote] @ '','' @ [dquote] @ ''say '' @ [dquote, dquote] @ ''hi''
         @ [dquote, dquote, dquote]
   \<and> splitCSVLine (''tt1,'' @ [dquote] @ ''a, b'' @ [dquote] @ '','' @ [dquote] @ ''say ''
         @ [dquote, dquote] @ ''hi'' @ [dquote, dquote, dquote])
     = [''tt1'', ''a, b'', ''say '' @ [dquote] @ ''hi'' @ [dquote]]"
proof -
  have a: "join [comma] (map csv_escape [''tt1'', ''a, b'', ''say '' @ [dquote] @ ''hi'' @ [dquote]])
     = ''tt1,'' @ [dquote] @ ''a, b'' @ [dquote] @ '','' @ [dquote] @ ''say '' @ [dquote, dquote] @ ''hi''
         @ [dquote, dquote, dquote]"
    by code_simp
  from splitCSVLine_quoted_fields [of "[''tt1'', ''a, b'', ''say '' @ [dquote] @ ''hi'' @ [dquote]]"]
  have "splitCSVLine (join [comma] (map csv_escape [''tt1'', ''a, b'', ''say '' @ [dquote] @ ''hi'' @ [dquote]]))
     = [''tt1'', ''a, b'', ''say '' @ [dquote] @ ''hi'' @ [dquote]]"
    by blast
  then show ?thesis unfolding a by simp
qed

text \<open>
  C9, as the code has it. \<open>parseInput\<close> splits its input at each line feed, a carriage return
  directly before the line feed being part of the separator; it trims each line, drops the
  blank ones and keeps the order of the others. Any other carriage return is not a
  separator: it stays in its line, and a text without a line feed is a single line. Every
  text is a sequence of such lines and separators, so this settles every input.
\<close>

theorem lines_split_at_LF_and_CRLF:
  assumes "wellSeparated l others"
  shows "inputLines (joinLines l others) = filter (\<lambda>x. x \<noteq> []) (map trim (l # map snd others))
     \<and> parseInput (joinLines l others)
         = parseLines (filter (\<lambda>x. x \<noteq> []) (map trim (l # map snd others)))
     \<and> (\<forall>s. LF \<notin> set s \<longrightarrow> inputLines s = filter (\<lambda>x. x \<noteq> []) [trim s])
     \<and> (\<forall>s. \<exists>l' others'. wellSeparated l' others' \<and> s = joinLines l' others')"
proof -
  from split_wellSeparated [OF assms]
  have "inputLines (joinLines l others) = filter (\<lambda>x. x \<noteq> []) (map trim (l # map snd others))"
    by (simp only: inputLines_def)
  moreover have "\<forall>s. LF \<notin> set s \<longrightarrow> inputLines s = filter (\<lambda>x. x \<noteq> []) [trim s]"
    by (simp add: inputLines_def split_no_LF)
  moreover have "\<forall>s. \<exists>l' others'. wellSeparated l' others' \<and> s = joinLines l' others'"
    by (simp add: every_text_wellSeparated)
  ultimately show ?thesis by (simp add: parseInput_parseLines)
qed

theorem lines_split_at_LF_and_CRLF_witness:
  "wellSeparated (''a'' @ [CR] @ ''b'') [([LF], ''  c'' @ [CR]), ([CR, LF], ''   ''), ([LF], ''d'')]
   \<and> joinLines (''a'' @ [CR] @ ''b'') [([LF], ''  c'' @ [CR]), ([CR, LF], ''   ''), ([LF], ''d'')]
       = mixed_text
   \<and> inputLines mixed_text = [''a'' @ [CR] @ ''b'', ''c'', ''d'']
   \<and> parseInput mixed_text = parseLines [''a'' @ [CR] @ ''b'', ''c'', ''d'']"
proof -
  let ?l = "''a'' @ [CR] @ ''b''"
  let ?others = "[([LF], ''  c'' @ [CR]), ([CR, LF], ''   ''), ([LF], ''d'')]"
  have h: "wellSeparated ?l ?others" by simp
  have j: "joinLines ?l ?others = mixed_text" by (simp add: mixed_text_def)
  have t: "filter (\<lambda>x. x \<noteq> []) (map trim (?l # map snd ?others)) = [''a'' @ [CR] @ ''b'', ''c'', ''d'']"
    by code_simp
  from lines_split_at_LF_and_CRLF [OF h]
  have "inputLines (joinLines ?l ?others) = filter (\<lambda>x. x \<noteq> []) (map trim (?l # map snd ?others))"
    and "parseInput (joinLines ?l ?others)
         = parseLines (filter (\<lambda>x. x \<noteq> []) (map trim (?l # map snd ?others)))"
    by blast+
  then have "inputLines mixed_text = [''a'' @ [CR] @ ''b'', ''c'', ''d'']"
    and "parseInput mixed_text = parseLines [''a'' @ [CR] @ ''b'', ''c'', ''d'']"
    unfolding j t by simp_all
  with h j show ?thesis by blast
qed

text \<open>
  A carriage return alone does not separate lines: \<open>a\<close>, carriage return, \<open>b\<close> is one line, and
  one item, where a line feed or the pair gives two.
\<close>

theorem lone_CR_counterexample:
  "parseInput (''a'' @ [LF] @ ''b'') = [\<lparr>item_id = ''a'', description = []\<rparr>, \<lparr>item_id = ''b'', description = []\<rparr>]
   \<and> parseInput (''a'' @ [CR, LF] @ ''b'') = [\<lparr>item_id = ''a'', description = []\<rparr>, \<lparr>item_id = ''b'', description = []\<rparr>]
   \<and> parseInput (''a'' @ [CR] @ ''b'') = [\<lparr>item_id = ''a'' @ [CR] @ ''b'', description = []\<rparr>]"
  by code_simp

text \<open>
  C10. In every outcome that \<open>processItems\<close> returns, and in every outcome that it passes to
  \<open>onProgress\<close>, \<open>ok\<close> is true exactly when \<open>error\<close> is null.
\<close>

theorem outcome_ok_iff_no_error:
  assumes "processItems env opts items w = (Inr results, w')"
  shows "(\<forall>s \<in> set results. ok s \<longleftrightarrow> error s = None)
     \<and> (\<forall>e \<in> set (drop (length (progress w)) (progress w')).
           ok (snd (snd e)) \<longleftrightarrow> error (snd (snd e)) = None)"
proof -
  from assms obtain l where l: "getListId env = Some l"
    by (cases "getListId env") (auto simp: processItems_def)
  from processItems_run [OF l, of items opts w] assms obtain k where k:
    "results = fst (run_items env opts l items k w)"
    "w' = snd (run_items env opts l items k w)"
    by auto
  have nth: "\<forall>j < k. ok (results ! j) \<longleftrightarrow> error (results ! j) = None"
    by (simp add: k(1) run_nth tryItem_outcome initialStatus_def split: option.splits)
  have len: "length results = k" by (simp add: k(1) run_length)
  have a: "\<forall>s \<in> set results. ok s \<longleftrightarrow> error s = None"
    using nth len by (metis in_set_conv_nth)
  have "drop (length (progress w)) (progress w')
          = map (\<lambda>j. (j + 1, length items, results ! j)) [0..<k]"
    using run_progress [of env opts l items k w] by (simp add: k)
  then have "\<forall>e \<in> set (drop (length (progress w)) (progress w')).
           ok (snd (snd e)) \<longleftrightarrow> error (snd (snd e)) = None"
    using nth by auto
  with a show ?thesis by blast
qed

theorem outcome_ok_iff_no_error_witness:
  "processItems sample_env sample_opts two_items initialWorld
     = (Inr two_outcomes, snd (processItems sample_env sample_opts two_items initialWorld))
   \<and> drop (length (progress initialWorld))
        (progress (snd (processItems sample_env sample_opts two_items initialWorld)))
       = [(1, 2, two_outcomes ! 0), (2, 2, two_outcomes ! 1)]
   \<and> (ok (two_outcomes ! 0) \<longleftrightarrow> error (two_outcomes ! 0) = None)
   \<and> (ok (two_outcomes ! 1) \<longleftrightarrow> error (two_outcomes ! 1) = None)"
proof -
  let ?w = "snd (processItems sample_env sample_opts two_items initialWorld)"
  have r: "processItems sample_env sample_opts two_items initialWorld = (Inr two_outcomes, ?w)"
    using sample_run by (simp add: prod_eq_iff)
  have p: "drop (length (progress initialWorld)) (progress ?w)
       = [(1, 2, two_outcomes ! 0), (2, 2, two_outcomes ! 1)]"
  proof -
    have "progress initialWorld = []" by (simp add: initialWorld_def)
    then show ?thesis by (simp only: sample_run_progress list.size drop_0)
  qed
  from outcome_ok_iff_no_error [OF r]
  have "\<forall>s \<in> set two_outcomes. ok s \<longleftrightarrow> error s = None" by blast
  moreover have "two_outcomes ! 0 \<in> set two_outcomes" and "two_outcomes ! 1 \<in> set two_outcomes"
    by (simp_all add: two_outcomes_def)
  ultimately show ?thesis using r p by blast
qed

end
